theory Spec2Isabelle
  imports Main "HOL-Library.Word"
begin

section \<open>The environment of a co-routine: the clock and the work units\<close>

text \<open>
  The library (\<^verbatim>\<open>src/CoRoutines.h\<close>, \<^verbatim>\<open>src/CoRoutines.cpp\<close>) talks to two things it
  does not define: the Arduino function \<^verbatim>\<open>millis()\<close> and the pure virtual
  \<^verbatim>\<open>CoRoutine::worker()\<close> that a subclass supplies.

  Both are modelled as scripts, and every call is recorded in a trace:
  \<^item> the clock script \<open>clk\<close> gives the value returned by the \<open>k\<close>-th call of
    \<^verbatim>\<open>millis()\<close> (counting from 0), so any passing of time between two reads, in
    particular any duration of a work unit, is a choice of \<open>clk\<close>;
  \<^item> the worker script \<open>wrk\<close> gives, for the object at address \<open>p\<close>, the value
    returned by the \<open>k\<close>-th call of its \<^verbatim>\<open>worker()\<close>.
  A work unit acts on the library only through its return value and the time it takes
  (it does not call back into the co-routine or the scheduler).

  \<^verbatim>\<open>unsigned long\<close> is \<open>'u word\<close> and \<^verbatim>\<open>int\<close> is \<open>'i word\<close>; on the AVR boards
  the library was written for these are 32 and 16 bits. A \<^verbatim>\<open>CoRoutine*\<close> is kept as
  its object representation, the bytes it occupies in memory, because
  \<^verbatim>\<open>Scheduler::removeCoRoutine\<close> moves pointers with a byte count.
\<close>

type_synonym byte = "8 word"
type_synonym ptr = "byte list"

datatype event = Millis | Resume ptr | Worker ptr

definition millis :: "(nat \<Rightarrow> 'u::len word) \<Rightarrow> event list \<Rightarrow> 'u word \<times> event list" where
  "millis clk tr = (clk (count_list tr Millis), tr @ [Millis])"

definition worker ::
  "(ptr \<Rightarrow> nat \<Rightarrow> 'i::len word) \<Rightarrow> ptr \<Rightarrow> event list \<Rightarrow> 'i word \<times> event list" where
  "worker wrk this tr = (wrk this (count_list tr (Worker this)), tr @ [Worker this])"

text \<open>Scripts for concrete runs: a clock that returns the listed readings in turn, and a
  work unit that returns the same value at every call.\<close>

definition fake_clock :: "'u::len word list \<Rightarrow> nat \<Rightarrow> 'u word" where
  "fake_clock ts k = (if k < length ts then ts ! k else 0)"

definition fixed_worker :: "'i::len word \<Rightarrow> ptr \<Rightarrow> nat \<Rightarrow> 'i word" where
  "fixed_worker d p k = d"

section \<open>CoRoutine\<close>

text \<open>The private fields of \<^verbatim>\<open>class CoRoutine\<close> (CoRoutines.h, lines 87-90). The type
  parameter is the type of \<^verbatim>\<open>nextRun\<close>, always a \<open>'u word\<close> below.\<close>

record 't coroutine =
  suspended :: bool
  waitRelativeToWorkerExit :: bool
  nextRun :: 't

text \<open>The constructor (CoRoutines.cpp, lines 43-47).\<close>

definition CoRoutine :: "bool \<Rightarrow> 'u::len word coroutine" where
  "CoRoutine w = \<lparr>suspended = False, waitRelativeToWorkerExit = w, nextRun = 0\<rparr>"

text \<open>
  \<^verbatim>\<open>CoRoutine::resume\<close> (CoRoutines.cpp, lines 49-86). The state is the object and the
  trace. In \<^verbatim>\<open>millis() + waitTime\<close> and \<^verbatim>\<open>nextRun += waitTime\<close> the \<^verbatim>\<open>int\<close> is
  converted to \<^verbatim>\<open>unsigned long\<close> before the addition, which is \<open>scast\<close> (the value
  modulo \<open>2 ^ LENGTH('u)\<close>); the addition wraps.
\<close>

definition resume ::
  "(nat \<Rightarrow> 'u::len word) \<Rightarrow> (ptr \<Rightarrow> nat \<Rightarrow> 'i::len word) \<Rightarrow> ptr \<Rightarrow>
     'u word coroutine \<times> event list \<Rightarrow> 'u word coroutine \<times> event list" where
  "resume clk wrk this s =
     (case s of (c, tr) \<Rightarrow>
       (case millis clk (tr @ [Resume this]) of (startOfRun, tr1) \<Rightarrow>
         if \<not> suspended c \<and> nextRun c \<le> startOfRun then
           (case worker wrk this tr1 of (waitTime, tr2) \<Rightarrow>
             if waitTime = - 1 then (c\<lparr>suspended := True\<rparr>, tr2)
             else if waitRelativeToWorkerExit c then
               (case millis clk tr2 of (t, tr3) \<Rightarrow> (c\<lparr>nextRun := t + scast waitTime\<rparr>, tr3))
             else if nextRun c \<noteq> 0 then (c\<lparr>nextRun := nextRun c + scast waitTime\<rparr>, tr2)
             else (c\<lparr>nextRun := startOfRun + scast waitTime\<rparr>, tr2))
         else (c, tr1)))"

text \<open>\<^verbatim>\<open>isSuspended\<close>, \<^verbatim>\<open>awake\<close> and \<^verbatim>\<open>suspend\<close> (CoRoutines.cpp, lines 88-105).\<close>

definition isSuspended :: "'t coroutine \<Rightarrow> bool" where
  "isSuspended c = suspended c"

definition awake :: "'u::len word coroutine \<Rightarrow> 'u word coroutine" where
  "awake c = (if suspended c then c\<lparr>nextRun := 0, suspended := False\<rparr> else c)"

definition suspend :: "'t coroutine \<Rightarrow> 't coroutine" where
  "suspend c = c\<lparr>suspended := True\<rparr>"

section \<open>Scheduler\<close>

text \<open>
  The array \<^verbatim>\<open>coRoutines\<close> is a block of \<^verbatim>\<open>malloc\<close>'ed bytes holding
  \<^verbatim>\<open>arraySize\<close> pointers of \<open>psz\<close> = \<^verbatim>\<open>sizeof(CoRoutine*)\<close> bytes each (2 on AVR).
  A byte that was never written is \<open>None\<close>. \<^verbatim>\<open>size_t\<close> is \<open>nat\<close>: the counts stay
  far below its range, since every entry occupies \<open>psz\<close> bytes of memory, and
  \<^verbatim>\<open>malloc\<close> is taken to succeed.
\<close>

type_synonym cell = "byte option"

record scheduler =
  coRoutines :: "cell list"
  arraySize :: nat
  noEntries :: nat

text \<open>The constructor (CoRoutines.cpp, lines 107-111); the null pointer is the empty block.\<close>

definition Scheduler :: scheduler where
  "Scheduler = \<lparr>coRoutines = [], arraySize = 0, noEntries = 0\<rparr>"

definition malloc :: "nat \<Rightarrow> cell list" where
  "malloc n = replicate n None"

text \<open>
  \<open>memcpy dst d src s n\<close> is the block \<open>dst\<close> after \<^verbatim>\<open>memcpy(dst + d, src + s, n)\<close>:
  \<open>n\<close> bytes are copied, the source bytes being read from \<open>src\<close> as it was before the call.
  The library calls it once between two blocks and once inside one block with the
  destination below the source, where copying the bytes in ascending order gives the same.
\<close>

definition memcpy :: "cell list \<Rightarrow> nat \<Rightarrow> cell list \<Rightarrow> nat \<Rightarrow> nat \<Rightarrow> cell list" where
  "memcpy dst d src s n = take d dst @ take n (drop s src) @ drop (d + n) dst"

text \<open>Reading \<^verbatim>\<open>coRoutines[i]\<close> (\<open>None\<close> outside the block or on a byte never written)
  and the assignment \<^verbatim>\<open>coRoutines[i] = p\<close>.\<close>

definition entry :: "nat \<Rightarrow> cell list \<Rightarrow> nat \<Rightarrow> ptr option" where
  "entry psz mem i =
     (if i * psz + psz \<le> length mem then those (take psz (drop (i * psz) mem)) else None)"

definition store :: "nat \<Rightarrow> cell list \<Rightarrow> nat \<Rightarrow> ptr \<Rightarrow> cell list" where
  "store psz mem i p = take (i * psz) mem @ map Some p @ drop (i * psz + psz) mem"

text \<open>\<^verbatim>\<open>Scheduler::resize\<close> (CoRoutines.cpp, lines 120-142).\<close>

definition resize :: "nat \<Rightarrow> nat \<Rightarrow> scheduler \<Rightarrow> scheduler" where
  "resize psz newSize s =
     (if newSize > arraySize s then
        let newSize' = (if arraySize s = 0 then 1 else 2 * arraySize s);
            newArray = malloc (newSize' * psz);
            newArray' = memcpy newArray 0 (coRoutines s) 0 (arraySize s * psz)
        in s\<lparr>coRoutines := newArray', arraySize := newSize'\<rparr>
      else s)"

text \<open>\<^verbatim>\<open>Scheduler::addCoRoutine\<close> (CoRoutines.cpp, lines 144-157).\<close>

definition addCoRoutine :: "nat \<Rightarrow> ptr \<Rightarrow> scheduler \<Rightarrow> scheduler" where
  "addCoRoutine psz coRoutine s =
     (let s1 = s\<lparr>noEntries := noEntries s + 1\<rparr>;
          s2 = resize psz (noEntries s1) s1
      in s2\<lparr>coRoutines := store psz (coRoutines s2) (noEntries s2 - 1) coRoutine\<rparr>)"

text \<open>
  The search loop of \<^verbatim>\<open>removeCoRoutine\<close> (CoRoutines.cpp, lines 168-176):
  \<^verbatim>\<open>for (size_t i = noEntries-1; i != 0; --i)\<close>, leaving at the first match. The third
  argument is \<open>i\<close>, the last the value \<^verbatim>\<open>foundIndex\<close> keeps when the loop ends without a
  match.
\<close>

fun find_from :: "nat \<Rightarrow> cell list \<Rightarrow> ptr \<Rightarrow> nat \<Rightarrow> nat \<Rightarrow> nat" where
  "find_from psz mem p 0 foundIndex = foundIndex"
| "find_from psz mem p (Suc j) foundIndex =
     (if entry psz mem (Suc j) = Some p then Suc j else find_from psz mem p j foundIndex)"

text \<open>\<^verbatim>\<open>Scheduler::removeCoRoutine\<close> (CoRoutines.cpp, lines 159-188). The last argument
  of \<^verbatim>\<open>memcpy\<close> is \<^verbatim>\<open>entriesToMove\<close>, as in the source.\<close>

definition removeCoRoutine :: "nat \<Rightarrow> ptr \<Rightarrow> scheduler \<Rightarrow> scheduler" where
  "removeCoRoutine psz coRoutine s =
     (if noEntries s = 0 then s
      else
        let foundIndex = find_from psz (coRoutines s) coRoutine (noEntries s - 1) (noEntries s) in
        if foundIndex \<noteq> noEntries s then
          let entriesToMove = noEntries s - (foundIndex + 1) in
          s\<lparr>coRoutines := memcpy (coRoutines s) (foundIndex * psz)
                              (coRoutines s) ((foundIndex + 1) * psz) entriesToMove,
            noEntries := noEntries s - 1\<rparr>
        else s)"

text \<open>
  The co-routine objects live outside the scheduler: \<open>objs\<close> maps an address to the
  object there. Dereferencing a pointer that is not the address of a co-routine is
  undefined behaviour in C++; the model stops with a fault.
\<close>

datatype fault = InvalidPointer

record 't world =
  objs :: "ptr \<Rightarrow> 't coroutine option"
  trace :: "event list"

text \<open>The call \<^verbatim>\<open>coRoutine->resume()\<close>.\<close>

definition call_resume ::
  "(nat \<Rightarrow> 'u::len word) \<Rightarrow> (ptr \<Rightarrow> nat \<Rightarrow> 'i::len word) \<Rightarrow> ptr \<Rightarrow>
     'u word world \<Rightarrow> fault + 'u word world" where
  "call_resume clk wrk p w =
     (case objs w p of
        None \<Rightarrow> Inl InvalidPointer
      | Some c \<Rightarrow>
          (case resume clk wrk p (c, trace w) of
             (c', tr') \<Rightarrow> Inr (w\<lparr>objs := (objs w)(p \<mapsto> c'), trace := tr'\<rparr>)))"

text \<open>
  The first loop of \<^verbatim>\<open>runOnce\<close> (CoRoutines.cpp, lines 193-197):
  \<^verbatim>\<open>for (size_t i = 0; i != noEntries; ++i)\<close>. Nothing in the loop changes
  \<^verbatim>\<open>noEntries\<close>, so the body runs \<^verbatim>\<open>noEntries\<close> times; the arguments are \<open>i\<close> and the
  number of iterations left.
\<close>

fun resume_all ::
  "(nat \<Rightarrow> 'u::len word) \<Rightarrow> (ptr \<Rightarrow> nat \<Rightarrow> 'i::len word) \<Rightarrow> nat \<Rightarrow> cell list \<Rightarrow>
     nat \<Rightarrow> nat \<Rightarrow> 'u word world \<Rightarrow> fault + 'u word world" where
  "resume_all clk wrk psz mem i 0 w = Inr w"
| "resume_all clk wrk psz mem i (Suc k) w =
     (case entry psz mem i of
        None \<Rightarrow> Inl InvalidPointer
      | Some coRoutine \<Rightarrow>
          (case call_resume clk wrk coRoutine w of
             Inl e \<Rightarrow> Inl e
           | Inr w' \<Rightarrow> resume_all clk wrk psz mem (Suc i) k w'))"

text \<open>
  The second loop of \<^verbatim>\<open>runOnce\<close> (CoRoutines.cpp, lines 206-212):
  \<^verbatim>\<open>for (size_t i = noEntries-1; i != 0; --i)\<close>; the third argument is \<open>i\<close>.
\<close>

fun remove_suspended :: "nat \<Rightarrow> 't world \<Rightarrow> nat \<Rightarrow> scheduler \<Rightarrow> fault + scheduler" where
  "remove_suspended psz w 0 s = Inr s"
| "remove_suspended psz w (Suc j) s =
     (case entry psz (coRoutines s) (Suc j) of
        None \<Rightarrow> Inl InvalidPointer
      | Some p \<Rightarrow>
          (case objs w p of
             None \<Rightarrow> Inl InvalidPointer
           | Some c \<Rightarrow>
               remove_suspended psz w j (if isSuspended c then removeCoRoutine psz p s else s)))"

text \<open>\<^verbatim>\<open>Scheduler::runOnce\<close> (CoRoutines.cpp, lines 190-214).\<close>

definition runOnce ::
  "(nat \<Rightarrow> 'u::len word) \<Rightarrow> (ptr \<Rightarrow> nat \<Rightarrow> 'i::len word) \<Rightarrow> nat \<Rightarrow> bool \<Rightarrow>
     scheduler \<times> 'u word world \<Rightarrow> fault + scheduler \<times> 'u word world" where
  "runOnce clk wrk psz removeCompletedCoRoutines sw =
     (case sw of (s, w) \<Rightarrow>
       (case resume_all clk wrk psz (coRoutines s) 0 (noEntries s) w of
          Inl e \<Rightarrow> Inl e
        | Inr w' \<Rightarrow>
            if noEntries s \<noteq> 0 \<and> removeCompletedCoRoutines then
              (case remove_suspended psz w' (noEntries s - 1) s of
                 Inl e \<Rightarrow> Inl e
               | Inr s' \<Rightarrow> Inr (s', w'))
            else Inr (s, w')))"

subsection \<open>Reading a scheduler\<close>

text \<open>The registered pointers in order: \<^verbatim>\<open>coRoutines[0]\<close>, ...,
  \<^verbatim>\<open>coRoutines[noEntries-1]\<close>.\<close>

definition entries :: "nat \<Rightarrow> scheduler \<Rightarrow> ptr option list" where
  "entries psz s = map (entry psz (coRoutines s)) [0..<noEntries s]"

text \<open>A sequence of calls of \<^verbatim>\<open>addCoRoutine\<close> and \<^verbatim>\<open>removeCoRoutine\<close>.\<close>

datatype call = Add ptr | Remove ptr

fun apply_call :: "nat \<Rightarrow> call \<Rightarrow> scheduler \<Rightarrow> scheduler" where
  "apply_call psz (Add p) s = addCoRoutine psz p s"
| "apply_call psz (Remove p) s = removeCoRoutine psz p s"

definition apply_calls :: "nat \<Rightarrow> call list \<Rightarrow> scheduler \<Rightarrow> scheduler" where
  "apply_calls psz cs s = fold (apply_call psz) cs s"

subsection \<open>Observing a sweep\<close>

text \<open>
  The events one call of \<^verbatim>\<open>resume()\<close> on the object at \<open>p\<close> can add to the trace: the
  call and its clock read; then, if the work unit runs, the call of the work unit; then a
  second clock read, which only an object with \<^verbatim>\<open>waitRelativeToWorkerExit\<close> makes.
\<close>

definition is_Resume :: "event \<Rightarrow> bool" where
  "is_Resume e = (case e of Resume p \<Rightarrow> True | _ \<Rightarrow> False)"

definition resume_block :: "'t world \<Rightarrow> ptr \<Rightarrow> event list \<Rightarrow> bool" where
  "resume_block w p b =
     (b = [Resume p, Millis] \<or> b = [Resume p, Millis, Worker p] \<or>
      b = [Resume p, Millis, Worker p, Millis] \<and>
        (case objs w p of Some c \<Rightarrow> waitRelativeToWorkerExit c | None \<Rightarrow> False))"

text \<open>What a test sees after \<^verbatim>\<open>runOnce\<close>: the registered pointers, the objects at the
  addresses \<open>ps\<close> and the trace. \<open>world_of\<close> is a world with the listed objects and an
  empty trace.\<close>

definition outcome ::
  "nat \<Rightarrow> ptr list \<Rightarrow> fault + scheduler \<times> 't world \<Rightarrow>
     fault + ptr option list \<times> 't coroutine option list \<times> event list" where
  "outcome psz ps r =
     (case r of Inl e \<Rightarrow> Inl e
      | Inr (s, w) \<Rightarrow> Inr (entries psz s, map (objs w) ps, trace w))"

definition world_of :: "(ptr \<times> 't coroutine) list \<Rightarrow> 't world" where
  "world_of os = \<lparr>objs = map_of os, trace = []\<rparr>"

text \<open>A well-formed scheduler: the block holds \<^verbatim>\<open>arraySize\<close> pointers, of which
  \<^verbatim>\<open>noEntries\<close> are in use.\<close>

definition wf_scheduler :: "nat \<Rightarrow> scheduler \<Rightarrow> bool" where
  "wf_scheduler psz s = (length (coRoutines s) = arraySize s * psz \<and> noEntries s \<le> arraySize s)"

subsection \<open>Objects for concrete runs\<close>

text \<open>Four co-routines at the addresses 0x0100, 0x0108, 0x0110 and 0x0118 of a machine
  with two-byte pointers, low byte first (AVR).\<close>

definition task_A :: ptr where "task_A = [0x00, 0x01]"
definition task_B :: ptr where "task_B = [0x08, 0x01]"
definition task_C :: ptr where "task_C = [0x10, 0x01]"
definition task_D :: ptr where "task_D = [0x18, 0x01]"

section \<open>Properties of CoRoutine\<close>

lemma resume_suspended:
  "suspended c \<Longrightarrow> resume clk wrk this (c, tr) = (c, tr @ [Resume this, Millis])"
  by (simp add: resume_def millis_def)

lemma concat_replicate_snoc: "concat (replicate n xs) @ xs = xs @ concat (replicate n xs)"
  by (induction n) simp_all

lemma resume_runs:
  assumes "\<not> suspended c" "nextRun c \<le> clk (count_list tr Millis)"
  shows "resume clk wrk this (c, tr) =
    (let startOfRun = clk (count_list tr Millis);
         waitTime = wrk this (count_list tr (Worker this));
         tr2 = tr @ [Resume this, Millis, Worker this] in
     if waitTime = - 1 then (c\<lparr>suspended := True\<rparr>, tr2)
     else if waitRelativeToWorkerExit c then
       (c\<lparr>nextRun := clk (Suc (count_list tr Millis)) + scast waitTime\<rparr>, tr2 @ [Millis])
     else if nextRun c \<noteq> 0 then (c\<lparr>nextRun := nextRun c + scast waitTime\<rparr>, tr2)
     else (c\<lparr>nextRun := startOfRun + scast waitTime\<rparr>, tr2))"
  using assms by (simp add: resume_def millis_def worker_def Let_def)

lemma resume_not_due:
  assumes "\<not> nextRun c \<le> clk (count_list tr Millis)"
  shows "resume clk wrk this (c, tr) = (c, tr @ [Resume this, Millis])"
  using assms by (simp add: resume_def millis_def)

lemma suspend_dormant: "suspended (suspend c)"
  by (simp add: suspend_def)

lemma resume_SUSPEND_dormant:
  assumes "\<not> suspended c" "nextRun c \<le> clk (count_list tr Millis)"
    and "wrk this (count_list tr (Worker this)) = - 1"
  shows "resume clk wrk this (c, tr) = (c\<lparr>suspended := True\<rparr>, tr @ [Resume this, Millis, Worker this])"
  using resume_runs [of c clk tr wrk this] assms by (simp add: Let_def)

text \<open>
  Claim C8. A dormant co-routine, whether \<^verbatim>\<open>suspend()\<close> made it so
  (\<open>suspend_dormant\<close>) or a work unit that returned -1 (\<open>resume_SUSPEND_dormant\<close>), stays
  as it is under any number \<open>n\<close> of calls of \<^verbatim>\<open>resume()\<close>, whatever the clock returns:
  the object is unchanged, and each call only reads the clock once, so the work unit is
  never called.
\<close>

theorem dormant_resume_no_op:
  assumes "suspended c"
  shows "(resume clk wrk this ^^ n) (c, tr) = (c, tr @ concat (replicate n [Resume this, Millis]))"
proof (induction n)
  case 0
  show ?case by simp
next
  case (Suc n)
  have "(resume clk wrk this ^^ Suc n) (c, tr) = resume clk wrk this ((resume clk wrk this ^^ n) (c, tr))"
    by simp
  also have "\<dots> = (c, (tr @ concat (replicate n [Resume this, Millis])) @ [Resume this, Millis])"
    unfolding Suc.IH by (rule resume_suspended [OF assms])
  also have "\<dots> = (c, tr @ concat (replicate (Suc n) [Resume this, Millis]))"
    using concat_replicate_snoc [of n "[Resume this, Millis]"] by simp
  finally show ?case .
qed

text \<open>Three calls on a suspended co-routine, at the clock readings 0, 1000 and 2000.\<close>

theorem dormant_resume_no_op_witness:
  "(resume (fake_clock [0, 1000, 2000]) (fixed_worker (5::16 word)) task_A ^^ 3)
     (suspend (CoRoutine False :: 32 word coroutine), []) =
   (suspend (CoRoutine False), [Resume task_A, Millis, Resume task_A, Millis, Resume task_A, Millis])"
proof -
  have h: "suspended (suspend (CoRoutine False :: 32 word coroutine))"
    by (simp add: suspend_def)
  have "concat (replicate 3 [Resume task_A, Millis]) =
     [Resume task_A, Millis, Resume task_A, Millis, Resume task_A, Millis]"
    by (simp add: numeral_3_eq_3)
  then show ?thesis
    using dormant_resume_no_op [OF h, where clk = "fake_clock [0, 1000, 2000]"
        and wrk = "fixed_worker (5::16 word)" and this = task_A and n = 3 and tr = "[]"]
    by simp
qed

text \<open>
  Claim C7. On a dormant co-routine \<^verbatim>\<open>awake()\<close> clears \<^verbatim>\<open>suspended\<close> and sets
  \<^verbatim>\<open>nextRun\<close> to 0; the next \<^verbatim>\<open>resume()\<close> then calls the work unit whatever the clock
  returns, and unless the work unit returns -1 it schedules the next run from the clock
  reading of this call (the one before the work unit, or the one after it when
  \<^verbatim>\<open>waitRelativeToWorkerExit\<close> is true). On a co-routine that is not dormant
  \<^verbatim>\<open>awake()\<close> changes nothing.
\<close>

theorem awake_forces_first_run:
  fixes c :: "'u::len word coroutine" and wrk :: "ptr \<Rightarrow> nat \<Rightarrow> 'i::len word"
  shows "(suspended c \<longrightarrow>
            awake c = c\<lparr>nextRun := 0, suspended := False\<rparr> \<and>
            count_list (snd (resume clk wrk this (awake c, tr))) (Worker this) =
              Suc (count_list tr (Worker this)) \<and>
            (wrk this (count_list tr (Worker this)) \<noteq> - 1 \<longrightarrow>
              nextRun (fst (resume clk wrk this (awake c, tr))) =
                (if waitRelativeToWorkerExit c then clk (Suc (count_list tr Millis))
                 else clk (count_list tr Millis))
                + scast (wrk this (count_list tr (Worker this))))) \<and>
         (\<not> suspended c \<longrightarrow> awake c = c)"
proof -
  have a: "suspended c \<Longrightarrow> awake c = c\<lparr>nextRun := 0, suspended := False\<rparr>"
    by (simp add: awake_def)
  have b: "\<not> suspended c \<Longrightarrow> awake c = c"
    by (simp add: awake_def)
  let ?a = "c\<lparr>nextRun := 0, suspended := False\<rparr>"
  have due: "\<not> suspended ?a" "nextRun ?a \<le> clk (count_list tr Millis)" by simp_all
  note r = resume_runs [of ?a clk tr wrk this, OF due]
  have c1: "count_list (snd (resume clk wrk this (?a, tr))) (Worker this) = Suc (count_list tr (Worker this))"
    unfolding r by (simp add: Let_def)
  have c2: "wrk this (count_list tr (Worker this)) \<noteq> - 1 \<Longrightarrow>
     nextRun (fst (resume clk wrk this (?a, tr))) =
                (if waitRelativeToWorkerExit c then clk (Suc (count_list tr Millis))
                 else clk (count_list tr Millis))
                + scast (wrk this (count_list tr (Worker this)))"
    unfolding r by (simp add: Let_def)
  show ?thesis using a b c1 c2 by simp
qed

text \<open>A co-routine scheduled for 900000 is suspended and awakened; resumed at clock 7
  with a work unit returning 100, it runs and is scheduled for 107.\<close>

theorem awake_forces_first_run_witness:
  "awake (suspend (\<lparr>suspended = False, waitRelativeToWorkerExit = False, nextRun = 900000::32 word\<rparr>))
     = \<lparr>suspended = False, waitRelativeToWorkerExit = False, nextRun = 0\<rparr> \<and>
   count_list (snd (resume (fake_clock [7]) (fixed_worker (100::16 word)) task_A
      (awake (suspend (\<lparr>suspended = False, waitRelativeToWorkerExit = False, nextRun = 900000::32 word\<rparr>)), [])))
      (Worker task_A) = 1 \<and>
   nextRun (fst (resume (fake_clock [7]) (fixed_worker (100::16 word)) task_A
      (awake (suspend (\<lparr>suspended = False, waitRelativeToWorkerExit = False, nextRun = 900000::32 word\<rparr>)), [])))
      = 107 \<and>
   awake (\<lparr>suspended = False, waitRelativeToWorkerExit = False, nextRun = 900000::32 word\<rparr>)
     = \<lparr>suspended = False, waitRelativeToWorkerExit = False, nextRun = 900000\<rparr>"
proof -
  let ?c = "\<lparr>suspended = False, waitRelativeToWorkerExit = False, nextRun = 900000::32 word\<rparr>"
  have s: "suspended (suspend ?c)" and n: "\<not> suspended ?c" by (simp_all add: suspend_def)
  have w: "fixed_worker (100::16 word) task_A (count_list [] (Worker task_A)) \<noteq> - 1"
    by (simp add: fixed_worker_def)
  show ?thesis
    using awake_forces_first_run [where c = "suspend ?c" and clk = "fake_clock [7]"
        and wrk = "fixed_worker (100::16 word)" and this = task_A and tr = "[]"]
      awake_forces_first_run [where c = ?c and clk = "fake_clock [7]"
        and wrk = "fixed_worker (100::16 word)" and this = task_A and tr = "[]"] s n w
    by (simp add: suspend_def awake_def fake_clock_def fixed_worker_def)
qed

lemma scast_as_of_nat:
  fixes d :: "'i::len word"
  assumes "0 \<le> sint d"
  shows "(scast d :: 'u::len word) = of_nat (nat (sint d))"
proof -
  have "(scast d :: 'u word) = word_of_int (sint d)" by (rule scast_eq)
  also have "\<dots> = of_nat (nat (sint d))" by (rule word_of_int_nat [OF assms])
  finally show ?thesis .
qed

lemma unat_plus_of_nat:
  fixes s :: "'u::len word"
  assumes "unat s + m < 2 ^ LENGTH('u)"
  shows "unat (s + of_nat m) = unat s + m"
proof -
  have m: "m < 2 ^ LENGTH('u)" using assms by simp
  have "unat (of_nat m :: 'u word) = m" unfolding unat_of_nat using m by simp
  then show ?thesis using assms unat_add_lem [of s "of_nat m"] by simp
qed

text \<open>
  Claim C6. When \<^verbatim>\<open>waitRelativeToWorkerExit\<close> is true and a call of \<^verbatim>\<open>resume()\<close> runs
  the work unit, which returns \<open>ms \<ge> 0\<close>, then \<^verbatim>\<open>nextRun\<close> becomes the clock reading
  taken after the work unit (the second read of the call, whatever it returns) plus
  \<open>ms\<close>, in \<^verbatim>\<open>unsigned long\<close> arithmetic; the sum is exact when it fits.
\<close>

theorem completion_relative_next_run:
  fixes c :: "'u::len word coroutine" and ms :: "'i::len word"
  assumes "waitRelativeToWorkerExit c" "\<not> suspended c"
    and "nextRun c \<le> clk (count_list tr Millis)"
    and "wrk this (count_list tr (Worker this)) = ms" "0 \<le> sint ms"
    and "resume clk wrk this (c, tr) = (c', tr')"
  shows "nextRun c' = clk (Suc (count_list tr Millis)) + scast ms \<and>
         tr' = tr @ [Resume this, Millis, Worker this, Millis] \<and>
         (unat (clk (Suc (count_list tr Millis))) + nat (sint ms) < 2 ^ LENGTH('u) \<longrightarrow>
            unat (nextRun c') = unat (clk (Suc (count_list tr Millis))) + nat (sint ms))"
proof -
  have "ms \<noteq> - 1" using assms(5) by auto
  then have r: "(c', tr') = (c\<lparr>nextRun := clk (Suc (count_list tr Millis)) + scast ms\<rparr>,
                     tr @ [Resume this, Millis, Worker this, Millis])"
    using resume_runs [of c clk tr wrk this] assms(1,2,3,4,6) by (simp add: Let_def)
  then have n: "nextRun c' = clk (Suc (count_list tr Millis)) + of_nat (nat (sint ms))"
    by (simp add: scast_as_of_nat [OF assms(5)])
  have "unat (clk (Suc (count_list tr Millis))) + nat (sint ms) < 2 ^ LENGTH('u) \<Longrightarrow>
            unat (nextRun c') = unat (clk (Suc (count_list tr Millis))) + nat (sint ms)"
    unfolding n by (rule unat_plus_of_nat)
  then show ?thesis using r by auto
qed

text \<open>A call at clock 100 whose work unit returns 20 and ends at clock 137.\<close>

theorem completion_relative_next_run_witness:
  "nextRun (fst (resume (fake_clock [100, 137]) (fixed_worker (20::16 word)) task_A
      (\<lparr>suspended = False, waitRelativeToWorkerExit = True, nextRun = 90::32 word\<rparr>, [])))
     = 137 + scast (20::16 word)"
proof -
  let ?c = "\<lparr>suspended = False, waitRelativeToWorkerExit = True, nextRun = 90::32 word\<rparr>"
  let ?clk = "fake_clock [100, 137::32 word]"
  let ?wrk = "fixed_worker (20::16 word)"
  obtain c' tr' where r: "resume ?clk ?wrk task_A (?c, []) = (c', tr')"
    by (cases "resume ?clk ?wrk task_A (?c, [])")
  have h1: "waitRelativeToWorkerExit ?c" and h2: "\<not> suspended ?c" by simp_all
  have h3: "nextRun ?c \<le> ?clk (count_list [] Millis)" by (simp add: fake_clock_def)
  have h4: "?wrk task_A (count_list [] (Worker task_A)) = 20" by (simp add: fixed_worker_def)
  have h5: "0 \<le> sint (20::16 word)" by simp
  from completion_relative_next_run [of ?c ?clk "[]" ?wrk task_A 20 c' tr', OF h1 h2 h3 h4 h5 r]
  have "nextRun c' = ?clk (Suc (count_list [] Millis)) + scast (20::16 word)" by blast
  then show ?thesis using r by (simp add: fake_clock_def)
qed

lemma resume_fixed_delay:
  fixes c :: "'u::len word coroutine" and d :: "'i::len word"
  assumes "\<not> suspended c" "\<not> waitRelativeToWorkerExit c" "\<forall>k. wrk this k = d" "d \<noteq> - 1"
  shows "resume clk wrk this (c, tr) =
    (if nextRun c \<le> clk (count_list tr Millis)
     then (c\<lparr>nextRun := (if nextRun c \<noteq> 0 then nextRun c else clk (count_list tr Millis)) + scast d\<rparr>,
           tr @ [Resume this, Millis, Worker this])
     else (c, tr @ [Resume this, Millis]))"
  using assms by (simp add: resume_def millis_def worker_def)

lemma schedule_invariant:
  fixes c :: "'u::len word coroutine" and d :: "'i::len word"
  assumes ns: "\<not> suspended c" "\<not> waitRelativeToWorkerExit c"
    and wd: "\<forall>k. wrk this k = d" and d1: "d \<noteq> - 1"
    and run: "(resume clk wrk this ^^ n) (c, tr) = (cn, trn)"
    and N: "N = count_list trn (Worker this) - count_list tr (Worker this)"
    and s0: "s0 = (if nextRun c = 0 then clk (count_list tr Millis) else nextRun c)"
    and nz: "\<forall>k. 0 < k \<and> k < N \<longrightarrow> s0 + of_nat k * scast d \<noteq> 0"
  shows "\<not> suspended cn \<and> \<not> waitRelativeToWorkerExit cn \<and>
         count_list tr (Worker this) \<le> count_list trn (Worker this) \<and>
         (N = 0 \<longrightarrow> cn = c \<and> (nextRun c = 0 \<longrightarrow> trn = tr)) \<and>
         (0 < N \<longrightarrow> nextRun cn = s0 + of_nat N * scast d)"
  using run N nz
proof (induction n arbitrary: cn trn N)
  case 0
  then show ?case using ns by simp
next
  case (Suc n)
  obtain cm trm where m: "(resume clk wrk this ^^ n) (c, tr) = (cm, trm)"
    by (cases "(resume clk wrk this ^^ n) (c, tr)")
  define M where "M = count_list trm (Worker this) - count_list tr (Worker this)"
  have step: "resume clk wrk this (cm, trm) = (cn, trn)"
    using Suc.prems(1) m by simp
  have le: "count_list trm (Worker this) \<le> count_list trn (Worker this)"
    using step by (auto simp: resume_def millis_def worker_def split: if_splits)
  have MN: "M \<le> N" using le Suc.prems(2) M_def by simp
  have IH: "\<not> suspended cm \<and> \<not> waitRelativeToWorkerExit cm \<and>
         count_list tr (Worker this) \<le> count_list trm (Worker this) \<and>
         (M = 0 \<longrightarrow> cm = c \<and> (nextRun c = 0 \<longrightarrow> trm = tr)) \<and>
         (0 < M \<longrightarrow> nextRun cm = s0 + of_nat M * scast d)"
    using Suc.IH [OF m M_def] Suc.prems(3) MN by simp
  have step': "(cn, trn) =
    (if nextRun cm \<le> clk (count_list trm Millis)
     then (cm\<lparr>nextRun := (if nextRun cm \<noteq> 0 then nextRun cm else clk (count_list trm Millis)) + scast d\<rparr>,
           trm @ [Resume this, Millis, Worker this])
     else (cm, trm @ [Resume this, Millis]))"
    using resume_fixed_delay [of cm wrk this d clk trm] IH wd d1 step by simp
  show ?case
  proof (cases "nextRun cm \<le> clk (count_list trm Millis)")
    case False
    then have eq: "cn = cm" "trn = trm @ [Resume this, Millis]"
      using step' by simp_all
    then have NM: "N = M" using Suc.prems(2) M_def by simp
    have "M = 0 \<Longrightarrow> nextRun c \<noteq> 0"
      using IH False by auto
    then show ?thesis using IH eq NM by auto
  next
    case True
    then have eq: "cn = cm\<lparr>nextRun := (if nextRun cm \<noteq> 0 then nextRun cm else clk (count_list trm Millis)) + scast d\<rparr>"
       "trn = trm @ [Resume this, Millis, Worker this]"
      using step' by simp_all
    have cnt: "count_list trn (Worker this) = Suc (count_list trm (Worker this))"
      using eq(2) by simp
    have le0: "count_list tr (Worker this) \<le> count_list trm (Worker this)"
      using IH by blast
    have NM: "N = Suc M" unfolding Suc.prems(2) M_def cnt using le0 by simp
    have nxtc: "nextRun cn = (if nextRun cm \<noteq> 0 then nextRun cm else clk (count_list trm Millis)) + scast d"
      unfolding eq(1) by simp
    have flags: "suspended cn = suspended cm" "waitRelativeToWorkerExit cn = waitRelativeToWorkerExit cm"
      unfolding eq(1) by simp_all
    have goal: "nextRun cn = s0 + of_nat N * scast d"
    proof (cases "M = 0")
      case True
      then have "cm = c" "nextRun c = 0 \<longrightarrow> trm = tr" using IH by blast+
      then have "(if nextRun cm \<noteq> 0 then nextRun cm else clk (count_list trm Millis)) = s0"
        unfolding s0 by auto
      then show ?thesis unfolding nxtc NM using True by simp
    next
      case False
      then have M0: "0 < M" by simp
      then have nm: "nextRun cm = s0 + of_nat M * scast d" using IH by blast
      have "0 < M \<and> M < N" using M0 NM by simp
      then have "s0 + of_nat M * scast d \<noteq> 0" using Suc.prems(3) by blast
      then have "nextRun cm \<noteq> 0" using nm by simp
      then show ?thesis unfolding nxtc NM using nm by (simp add: algebra_simps)
    qed
    have "\<not> suspended cn" "\<not> waitRelativeToWorkerExit cn" using flags IH by simp_all
    moreover have "count_list tr (Worker this) \<le> count_list trn (Worker this)"
      using le0 cnt by simp
    moreover have "N \<noteq> 0" using NM by simp
    ultimately show ?thesis using goal by simp
  qed
qed

text \<open>
  Claim C1, as amended. A co-routine that schedules relative to the expected time
  (\<^verbatim>\<open>waitRelativeToWorkerExit\<close> false) is resumed \<open>n\<close> times, at any clock readings, and
  its work unit returns the same \<open>d \<ge> 0\<close> each time it runs; it ran \<open>N > 0\<close> times. Let
  \<open>s0\<close> be the first scheduled time: \<^verbatim>\<open>nextRun\<close> at the start or, if that is the
  value 0 of a co-routine that never ran, the clock reading of the first call. If none
  of \<open>s0 + k * d\<close> for \<open>0 < k < N\<close> is 0 modulo \<open>2 ^ LENGTH('u)\<close>, then \<^verbatim>\<open>nextRun\<close> is
  \<open>s0 + N * d\<close> modulo \<open>2 ^ LENGTH('u)\<close>, and it is the sum itself when that fits
  \<^verbatim>\<open>unsigned long\<close>.
\<close>

theorem schedule_relative_accumulation:
  fixes c :: "'u::len word coroutine" and d :: "'i::len word"
  assumes "\<not> suspended c" "\<not> waitRelativeToWorkerExit c"
    and "\<forall>k. wrk this k = d" and "0 \<le> sint d"
    and "(resume clk wrk this ^^ n) (c, tr) = (c', tr')"
    and "N = count_list tr' (Worker this) - count_list tr (Worker this)"
    and "s0 = (if nextRun c = 0 then clk (count_list tr Millis) else nextRun c)"
    and "\<forall>k. 0 < k \<and> k < N \<longrightarrow> s0 + of_nat k * scast d \<noteq> 0"
    and "0 < N"
  shows "nextRun c' = s0 + of_nat N * scast d \<and>
         (unat s0 + N * nat (sint d) < 2 ^ LENGTH('u) \<longrightarrow>
            unat (nextRun c') = unat s0 + N * nat (sint d))"
proof -
  have "d \<noteq> - 1" using assms(4) by auto
  from schedule_invariant [OF assms(1,2,3) this assms(5,6,7,8)] assms(9)
  have w: "nextRun c' = s0 + of_nat N * scast d" by simp
  have "(of_nat N * scast d :: 'u word) = of_nat (N * nat (sint d))"
    unfolding scast_as_of_nat [OF assms(4)] by simp
  then have w': "nextRun c' = s0 + of_nat (N * nat (sint d))" using w by (simp only:)
  have "unat s0 + N * nat (sint d) < 2 ^ LENGTH('u) \<Longrightarrow>
            unat (nextRun c') = unat s0 + N * nat (sint d)"
    unfolding w' by (rule unat_plus_of_nat)
  then show ?thesis using w by blast
qed

lemma scenario_run:
  "(resume (fake_clock [0, 50, 100, 250]) (fixed_worker (100::16 word)) task_A ^^ 4)
      (CoRoutine False :: 32 word coroutine, []) =
   (\<lparr>suspended = False, waitRelativeToWorkerExit = False, nextRun = 300\<rparr>,
    [Resume task_A, Millis, Worker task_A, Resume task_A, Millis,
     Resume task_A, Millis, Worker task_A, Resume task_A, Millis, Worker task_A])"
  by code_simp

text \<open>The run of the specification: delay 100, calls at 0, 50, 100 and 250; the work
  unit runs three times and \<^verbatim>\<open>nextRun\<close> ends at 300.\<close>

theorem schedule_relative_accumulation_witness:
  "nextRun (fst ((resume (fake_clock [0, 50, 100, 250]) (fixed_worker (100::16 word)) task_A ^^ 4)
      (CoRoutine False :: 32 word coroutine, []))) = 300"
proof -
  let ?c = "CoRoutine False :: 32 word coroutine"
  let ?tr = "[Resume task_A, Millis, Worker task_A, Resume task_A, Millis,
     Resume task_A, Millis, Worker task_A, Resume task_A, Millis, Worker task_A]"
  have h1: "\<not> suspended ?c" and h2: "\<not> waitRelativeToWorkerExit ?c"
    by (simp_all add: CoRoutine_def)
  have h3: "\<forall>k. fixed_worker (100::16 word) task_A k = 100"
    by (simp add: fixed_worker_def)
  have h4: "0 \<le> sint (100::16 word)" by simp
  have h6: "(3::nat) = count_list ?tr (Worker task_A) - count_list [] (Worker task_A)"
    by (simp add: task_A_def)
  have h7: "(0::32 word) = (if nextRun ?c = 0 then fake_clock [0, 50, 100, 250] (count_list [] Millis)
                            else nextRun ?c)"
    by (simp add: CoRoutine_def fake_clock_def)
  have h8: "\<forall>k. 0 < k \<and> k < (3::nat) \<longrightarrow> (0::32 word) + of_nat k * scast (100::16 word) \<noteq> 0"
  proof (intro allI impI)
    fix k :: nat
    assume "0 < k \<and> k < 3"
    then have "k = 1 \<or> k = 2" by arith
    then show "(0::32 word) + of_nat k * scast (100::16 word) \<noteq> 0" by auto
  qed
  from schedule_relative_accumulation [OF h1 h2 h3 h4 scenario_run h6 h7 h8]
  have "nextRun \<lparr>suspended = False, waitRelativeToWorkerExit = False, nextRun = 300::32 word\<rparr>
          = 0 + of_nat 3 * scast (100::16 word)" by simp
  then show ?thesis by (simp add: scenario_run)
qed

text \<open>
  Claim C1 as stated fails when a scheduled time is 0, which \<^verbatim>\<open>resume()\<close> reads as
  "never ran": with delay 0 and a first run at clock 0, \<^verbatim>\<open>nextRun\<close> stays 0, and the
  second run, at clock 50, sets it to 50 instead of \<open>0 + 2 * 0\<close>.
\<close>

theorem zero_delay_reseeds_counterexample:
  "(resume (fake_clock [0, 50]) (fixed_worker (0::16 word)) task_A ^^ 2)
      (CoRoutine False :: 32 word coroutine, []) =
   (\<lparr>suspended = False, waitRelativeToWorkerExit = False, nextRun = 50\<rparr>,
    [Resume task_A, Millis, Worker task_A, Resume task_A, Millis, Worker task_A])
   \<and> (50 :: 32 word) \<noteq> 0 + 2 * scast (0::16 word)"
  by code_simp

lemma uint_scast_negative:
  fixes v :: "'i::len word"
  assumes "LENGTH('i) \<le> LENGTH('u::len)" "sint v < 0"
  shows "uint (scast v :: 'u word) = 2 ^ LENGTH('u) + sint v"
proof -
  have lo: "- (2 ^ (LENGTH('i) - 1)) \<le> sint v" by (rule sint_ge)
  have "(2::int) ^ (LENGTH('i) - 1) \<le> 2 ^ LENGTH('u)"
    using assms(1) by (intro power_increasing) simp_all
  then have lo': "- (2 ^ LENGTH('u)) \<le> sint v" using lo by linarith
  have "uint (scast v :: 'u word) = uint (word_of_int (sint v) :: 'u word)"
    by (simp only: scast_eq)
  also have "\<dots> = sint v mod 2 ^ LENGTH('u)"
    by (rule uint_word_of_int)
  also have "\<dots> = (sint v + 2 ^ LENGTH('u)) mod 2 ^ LENGTH('u)" by simp
  also have "\<dots> = sint v + 2 ^ LENGTH('u)"
    using lo' assms(2) by (intro mod_pos_pos_trivial) simp_all
  finally show ?thesis by (simp only: add.commute)
qed

text \<open>
  Claim C10, as amended. When \<^verbatim>\<open>int\<close> is no wider than \<^verbatim>\<open>unsigned long\<close> and a call of
  \<^verbatim>\<open>resume()\<close> runs the work unit, which returns \<open>v < 0\<close> other than -1, the co-routine
  is not suspended; \<open>v\<close> is converted to \<open>2 ^ LENGTH('u) + v\<close> and added modulo
  \<open>2 ^ LENGTH('u)\<close> to the base of the schedule (the clock reading after the work unit,
  the old \<^verbatim>\<open>nextRun\<close>, or the clock reading of the call). The sum wraps unless the
  base is less than \<open>- v\<close>: \<^verbatim>\<open>nextRun\<close> is \<open>base + v\<close>, that is \<open>- v\<close> milliseconds
  before the base, when \<open>- v \<le> base\<close>, and \<open>base + v + 2 ^ LENGTH('u)\<close> otherwise.
\<close>

theorem negative_delay_wraps:
  fixes c :: "'u::len word coroutine" and v :: "'i::len word"
  assumes "LENGTH('i) \<le> LENGTH('u)"
    and "\<not> suspended c" "nextRun c \<le> clk (count_list tr Millis)"
    and "wrk this (count_list tr (Worker this)) = v" "sint v < 0" "v \<noteq> - 1"
    and "resume clk wrk this (c, tr) = (c', tr')"
    and "base = (if waitRelativeToWorkerExit c then clk (Suc (count_list tr Millis))
                 else if nextRun c \<noteq> 0 then nextRun c else clk (count_list tr Millis))"
  shows "\<not> suspended c' \<and> nextRun c' = base + scast v \<and>
         uint (scast v :: 'u word) = 2 ^ LENGTH('u) + sint v \<and>
         uint (nextRun c') =
           (if - sint v \<le> uint base then uint base + sint v
            else uint base + sint v + 2 ^ LENGTH('u))"
proof -
  have "resume clk wrk this (c, tr) =
     (if waitRelativeToWorkerExit c
      then (c\<lparr>nextRun := clk (Suc (count_list tr Millis)) + scast v\<rparr>,
            (tr @ [Resume this, Millis, Worker this]) @ [Millis])
      else if nextRun c \<noteq> 0
        then (c\<lparr>nextRun := nextRun c + scast v\<rparr>, tr @ [Resume this, Millis, Worker this])
        else (c\<lparr>nextRun := clk (count_list tr Millis) + scast v\<rparr>,
              tr @ [Resume this, Millis, Worker this]))"
    using resume_runs [of c clk tr wrk this] assms(2,3,4,6) by (simp add: Let_def)
  then have c': "c' = c\<lparr>nextRun := base + scast v\<rparr>"
    using assms(7,8) by (simp split: if_splits)
  have r1: "\<not> suspended c'" using c' assms(2) by simp
  have r2: "nextRun c' = base + scast v" using c' by simp
  have u: "uint (scast v :: 'u word) = 2 ^ LENGTH('u) + sint v"
    by (rule uint_scast_negative [OF assms(1,5)])
  have lo: "- (2 ^ (LENGTH('i) - 1)) \<le> sint v" by (rule sint_ge)
  have "(2::int) ^ (LENGTH('i) - 1) \<le> 2 ^ LENGTH('u)"
    using assms(1) by (intro power_increasing) simp_all
  then have lo': "- (2 ^ LENGTH('u)) \<le> sint v" using lo by linarith
  have b0: "0 \<le> uint base" by simp
  have b1: "uint base < 2 ^ LENGTH('u)" by (rule uint_lt2p)
  have "uint (base + scast v :: 'u word) = (uint base + uint (scast v :: 'u word)) mod 2 ^ LENGTH('u)"
    by (simp only: uint_word_ariths)
  also have "\<dots> = (uint base + sint v + 2 ^ LENGTH('u)) mod 2 ^ LENGTH('u)"
    unfolding u by (simp only: ac_simps)
  finally have m: "uint (nextRun c') = (uint base + sint v + 2 ^ LENGTH('u)) mod 2 ^ LENGTH('u)"
    unfolding r2 .
  have r4: "uint (nextRun c') =
           (if - sint v \<le> uint base then uint base + sint v
            else uint base + sint v + 2 ^ LENGTH('u))"
  proof (cases "- sint v \<le> uint base")
    case True
    have "(uint base + sint v + 2 ^ LENGTH('u)) mod 2 ^ LENGTH('u) = (uint base + sint v) mod 2 ^ LENGTH('u)"
      by simp
    also have "\<dots> = uint base + sint v"
      using True b1 assms(5) by (intro mod_pos_pos_trivial) linarith+
    finally show ?thesis using True m by simp
  next
    case False
    have "(uint base + sint v + 2 ^ LENGTH('u)) mod 2 ^ LENGTH('u) = uint base + sint v + 2 ^ LENGTH('u)"
      using False b0 lo' by (intro mod_pos_pos_trivial) linarith+
    then show ?thesis using False m by simp
  qed
  show ?thesis using r1 r2 u r4 by blast
qed

text \<open>A co-routine due at 1000 is resumed at clock 1000 and its work unit returns -5:
  the next run is scheduled for 995.\<close>

theorem negative_delay_wraps_witness:
  "uint (nextRun (fst (resume (fake_clock [1000]) (fixed_worker (- 5 :: 16 word)) task_A
      (\<lparr>suspended = False, waitRelativeToWorkerExit = False, nextRun = 1000 :: 32 word\<rparr>, []))))
     = 995"
proof -
  let ?c = "\<lparr>suspended = False, waitRelativeToWorkerExit = False, nextRun = 1000 :: 32 word\<rparr>"
  let ?clk = "fake_clock [1000 :: 32 word]"
  let ?wrk = "fixed_worker (- 5 :: 16 word)"
  obtain c' tr' where r: "resume ?clk ?wrk task_A (?c, []) = (c', tr')"
    by (cases "resume ?clk ?wrk task_A (?c, [])")
  have h1: "LENGTH(16) \<le> LENGTH(32)" by simp
  have h2: "\<not> suspended ?c" by simp
  have h3: "nextRun ?c \<le> ?clk (count_list [] Millis)" by (simp add: fake_clock_def)
  have h4: "?wrk task_A (count_list [] (Worker task_A)) = - 5" by (simp add: fixed_worker_def)
  have h5: "sint (- 5 :: 16 word) < 0" by simp
  have h6: "(- 5 :: 16 word) \<noteq> - 1" by simp
  have h8: "(1000 :: 32 word) = (if waitRelativeToWorkerExit ?c then ?clk (Suc (count_list [] Millis))
                 else if nextRun ?c \<noteq> 0 then nextRun ?c else ?clk (count_list [] Millis))"
    by simp
  from negative_delay_wraps [where c = ?c and clk = ?clk and wrk = ?wrk and this = task_A
      and tr = "[]" and v = "- 5" and c' = c' and tr' = tr' and base = 1000,
      OF h1 h2 h3 h4 h5 h6 r h8]
  have "uint (nextRun c') =
      (if - sint (- 5 :: 16 word) \<le> uint (1000 :: 32 word) then uint (1000 :: 32 word) + sint (- 5 :: 16 word)
       else uint (1000 :: 32 word) + sint (- 5 :: 16 word) + 2 ^ LENGTH(32))"
    by blast
  then show ?thesis using r by simp
qed

text \<open>
  Claim C10 as stated fails: a return value of -5 does not delay the co-routine. Due at
  1000 and resumed at clock 1000, it is scheduled for 995; the next call, at clock 1001,
  runs the work unit again and schedules 990.
\<close>

theorem negative_delay_not_in_future_counterexample:
  "(resume (fake_clock [1000, 1001]) (fixed_worker (- 5 :: 16 word)) task_A ^^ 2)
      (\<lparr>suspended = False, waitRelativeToWorkerExit = False, nextRun = 1000 :: 32 word\<rparr>, []) =
   (\<lparr>suspended = False, waitRelativeToWorkerExit = False, nextRun = 990\<rparr>,
    [Resume task_A, Millis, Worker task_A, Resume task_A, Millis, Worker task_A])"
  by code_simp

section \<open>Properties of Scheduler\<close>








text \<open>The capacities after 0, 1, 2, 3, 4, 5 and 9 registrations.\<close>

lemma capacities_of_adds:
  "map (\<lambda>n. arraySize (apply_calls 2 (map Add (replicate n task_A)) Scheduler)) [0, 1, 2, 3, 4, 5, 9]
     = [0, 1, 2, 4, 4, 8, 16]"
  by code_simp

text \<open>
  Registration. A scheduler is well formed when its block has room for \<^verbatim>\<open>arraySize\<close>
  pointers and \<^verbatim>\<open>noEntries\<close> is at most \<^verbatim>\<open>arraySize\<close>. Registering pointers of \<open>psz\<close>
  bytes on a new scheduler keeps it well formed, and the entries are the registered
  pointers in order (\<open>entries_after_adds\<close>).
\<close>

lemma those_map_Some: "those (map Some xs) = Some xs"
  by (induction xs) simp_all

lemma entry_append:
  "i * psz + psz \<le> length xs \<Longrightarrow> entry psz (xs @ ys) i = entry psz xs i"
  by (simp add: entry_def)

lemma length_store:
  "i * psz + psz \<le> length mem \<Longrightarrow> length p = psz \<Longrightarrow> length (store psz mem i p) = length mem"
  by (simp add: store_def)

lemma entry_store_same:
  assumes "i * psz + psz \<le> length mem" "length p = psz"
  shows "entry psz (store psz mem i p) i = Some p"
proof -
  have "drop (i * psz) (store psz mem i p) = map Some p @ drop (i * psz + psz) mem"
    using assms by (simp add: store_def)
  then have "take psz (drop (i * psz) (store psz mem i p)) = map Some p"
    using assms(2) by simp
  then show ?thesis
    using assms by (simp add: entry_def length_store those_map_Some)
qed

lemma entry_store_before:
  assumes "i * psz + psz \<le> length mem" "length p = psz" "j < i"
  shows "entry psz (store psz mem i p) j = entry psz mem j"
proof -
  have "Suc j \<le> i" using assms(3) by simp
  then have "Suc j * psz \<le> i * psz" by (rule mult_le_mono1)
  then have le: "j * psz + psz \<le> i * psz" by simp
  have "entry psz (store psz mem i p) j = entry psz (take (i * psz) mem) j"
    unfolding store_def using le assms(1) by (intro entry_append) simp
  also have "\<dots> = entry psz mem j"
    using le assms(1) by (simp add: entry_def take_drop min_def)
  finally show ?thesis .
qed

lemma resize_grows:
  assumes "length (coRoutines s) = arraySize s * psz" "n \<le> arraySize s + 1"
  shows "\<exists>pad. coRoutines (resize psz n s) = coRoutines s @ pad"
    and "length (coRoutines (resize psz n s)) = arraySize (resize psz n s) * psz"
    and "n \<le> arraySize (resize psz n s)"
    and "noEntries (resize psz n s) = noEntries s"
proof -
  show "\<exists>pad. coRoutines (resize psz n s) = coRoutines s @ pad"
    using assms(1) by (simp add: resize_def Let_def memcpy_def malloc_def)
  show "length (coRoutines (resize psz n s)) = arraySize (resize psz n s) * psz"
    using assms(1) by (auto simp: resize_def Let_def memcpy_def malloc_def algebra_simps)
  show "n \<le> arraySize (resize psz n s)"
    using assms(2) by (auto simp: resize_def Let_def)
  show "noEntries (resize psz n s) = noEntries s"
    by (simp add: resize_def Let_def)
qed

lemma addCoRoutine_entries:
  assumes "wf_scheduler psz s" "length p = psz"
  shows "wf_scheduler psz (addCoRoutine psz p s) \<and>
         entries psz (addCoRoutine psz p s) = entries psz s @ [Some p]"
proof -
  let ?n = "noEntries s"
  let ?s1 = "s\<lparr>noEntries := ?n + 1\<rparr>"
  let ?s2 = "resize psz (?n + 1) ?s1"
  have len1: "length (coRoutines ?s1) = arraySize ?s1 * psz" and n1: "?n + 1 \<le> arraySize ?s1 + 1"
    using assms(1) by (simp_all add: wf_scheduler_def)
  from resize_grows(1) [OF len1 n1] obtain pad where pad: "coRoutines ?s2 = coRoutines s @ pad"
    by auto
  have len2: "length (coRoutines ?s2) = arraySize ?s2 * psz"
    by (rule resize_grows(2) [OF len1 n1])
  have cap2: "?n + 1 \<le> arraySize ?s2" by (rule resize_grows(3) [OF len1 n1])
  have ne2: "noEntries ?s2 = ?n + 1" using resize_grows(4) [OF len1 n1] by simp
  have add: "addCoRoutine psz p s = ?s2\<lparr>coRoutines := store psz (coRoutines ?s2) ?n p\<rparr>"
    using ne2 by (simp add: addCoRoutine_def Let_def)
  have "(?n + 1) * psz \<le> arraySize ?s2 * psz" using cap2 by (rule mult_le_mono1)
  then have room: "?n * psz + psz \<le> length (coRoutines ?s2)" using len2 by simp
  have wf: "wf_scheduler psz (addCoRoutine psz p s)"
    unfolding add using room len2 cap2 ne2 assms(2) by (simp add: wf_scheduler_def length_store)
  have old: "entry psz (store psz (coRoutines ?s2) ?n p) j = entry psz (coRoutines s) j" if "j < ?n" for j
  proof -
    have "Suc j \<le> arraySize s" using that assms(1) by (simp add: wf_scheduler_def)
    then have "Suc j * psz \<le> arraySize s * psz" by (rule mult_le_mono1)
    then have "j * psz + psz \<le> length (coRoutines s)" using assms(1) by (simp add: wf_scheduler_def)
    then have "entry psz (coRoutines ?s2) j = entry psz (coRoutines s) j"
      unfolding pad by (rule entry_append)
    then show ?thesis using entry_store_before [OF room assms(2) that] by simp
  qed
  have new: "entry psz (store psz (coRoutines ?s2) ?n p) ?n = Some p"
    by (rule entry_store_same [OF room assms(2)])
  have "entries psz (addCoRoutine psz p s) =
        map (entry psz (store psz (coRoutines ?s2) ?n p)) [0..<?n] @ [entry psz (store psz (coRoutines ?s2) ?n p) ?n]"
    unfolding add using ne2 by (simp add: entries_def)
  also have "\<dots> = entries psz s @ [Some p]"
    using old new by (simp add: entries_def)
  finally show ?thesis using wf by simp
qed

lemma entries_after_adds:
  assumes "\<forall>p\<in>set ps. length p = psz"
  shows "wf_scheduler psz (apply_calls psz (map Add ps) Scheduler) \<and>
         entries psz (apply_calls psz (map Add ps) Scheduler) = map Some ps"
  using assms
proof (induction ps rule: rev_induct)
  case Nil
  show ?case by (simp add: apply_calls_def Scheduler_def wf_scheduler_def entries_def)
next
  case (snoc p ps)
  have step: "apply_calls psz (map Add (ps @ [p])) Scheduler =
        addCoRoutine psz p (apply_calls psz (map Add ps) Scheduler)"
    by (simp add: apply_calls_def)
  show ?case
    unfolding step using snoc addCoRoutine_entries [of psz "apply_calls psz (map Add ps) Scheduler" p]
    by simp
qed

text \<open>
  Removal. When no entry after the first holds the pointer, \<^verbatim>\<open>removeCoRoutine\<close>
  changes nothing, whatever the first entry is; when the last entry holds it, only
  \<^verbatim>\<open>noEntries\<close> changes.
\<close>

lemma find_from_absent:
  "\<forall>i. 0 < i \<and> i \<le> j \<longrightarrow> entry psz mem i \<noteq> Some p \<Longrightarrow> find_from psz mem p j d = d"
  by (induction j) simp_all

lemma removeCoRoutine_absent:
  assumes "\<forall>i. 0 < i \<and> i < noEntries s \<longrightarrow> entry psz (coRoutines s) i \<noteq> Some p"
  shows "removeCoRoutine psz p s = s"
proof (cases "noEntries s = 0")
  case True
  then show ?thesis by (simp add: removeCoRoutine_def)
next
  case False
  have "\<forall>i. 0 < i \<and> i \<le> noEntries s - 1 \<longrightarrow> entry psz (coRoutines s) i \<noteq> Some p"
    using assms False by auto
  from find_from_absent [OF this]
  show ?thesis by (simp add: removeCoRoutine_def Let_def)
qed

lemma removeCoRoutine_last:
  assumes "noEntries s = Suc (Suc n)" "entry psz (coRoutines s) (Suc n) = Some p"
  shows "removeCoRoutine psz p s = s\<lparr>noEntries := Suc n\<rparr>"
  using assms by (simp add: removeCoRoutine_def Let_def memcpy_def)

text \<open>
  Claim C4 fails on the code. The search loop of \<^verbatim>\<open>removeCoRoutine\<close> ends at \<open>i = 0\<close>
  without comparing \<^verbatim>\<open>coRoutines[0]\<close>: a co-routine registered first, and only there,
  is not removed.
\<close>

theorem remove_skips_first_entry:
  "entries 2 (apply_calls 2 [Add task_A, Add task_B, Remove task_A] Scheduler)
     = [Some task_A, Some task_B] \<and>
   entries 2 (apply_calls 2 [Add task_A, Remove task_A] Scheduler) = [Some task_A]"
  by code_simp

text \<open>
  Claim C3 fails on the code. \<^verbatim>\<open>removeCoRoutine\<close> passes \<^verbatim>\<open>entriesToMove\<close>, a number of
  entries, to \<^verbatim>\<open>memcpy\<close> as the number of bytes. With two-byte pointers and four entries,
  removing the second moves two bytes, one entry instead of two: the third entry is
  then registered twice and the fourth is lost.
\<close>

theorem remove_copies_bytes_not_entries:
  "entries 2 (apply_calls 2 [Add task_A, Add task_B, Add task_C, Add task_D] Scheduler)
     = [Some task_A, Some task_B, Some task_C, Some task_D] \<and>
   entries 2 (apply_calls 2 [Add task_A, Add task_B, Add task_C, Add task_D, Remove task_B] Scheduler)
     = [Some task_A, Some task_C, Some task_C]"
  by code_simp

text \<open>The case of claim C3 that the code gets right: a co-routine added twice and
  removed once is still registered once, and a sweep resumes it once.\<close>

lemma remove_duplicate_then_sweep:
  "outcome 2 [task_A]
     (runOnce (fake_clock [0]) (fixed_worker (100 :: 16 word)) 2 False
        (apply_calls 2 [Add task_A, Add task_A, Remove task_A] Scheduler,
         world_of [(task_A, CoRoutine False :: 32 word coroutine)]))
   = Inr ([Some task_A],
          [Some \<lparr>suspended = False, waitRelativeToWorkerExit = False, nextRun = 100\<rparr>],
          [Resume task_A, Millis, Worker task_A])"
  by code_simp

lemma resume_shape:
  "resume clk wrk p (c, tr) = (c', tr') \<Longrightarrow>
     waitRelativeToWorkerExit c' = waitRelativeToWorkerExit c \<and>
     (\<exists>b. tr' = tr @ b \<and>
        (b = [Resume p, Millis] \<or> b = [Resume p, Millis, Worker p] \<or>
         b = [Resume p, Millis, Worker p, Millis] \<and> waitRelativeToWorkerExit c))"
  by (auto simp: resume_def millis_def worker_def split: if_splits)

lemma call_resume_shape:
  assumes "objs w p = Some c"
  shows "\<exists>w' b. call_resume clk wrk p w = Inr w' \<and> trace w' = trace w @ b \<and> resume_block w p b \<and>
     (\<forall>q. map_option waitRelativeToWorkerExit (objs w' q) = map_option waitRelativeToWorkerExit (objs w q))"
proof -
  obtain c' tr' where r: "resume clk wrk p (c, trace w) = (c', tr')"
    by (cases "resume clk wrk p (c, trace w)")
  from resume_shape [OF r] obtain b where b: "tr' = trace w @ b"
    "b = [Resume p, Millis] \<or> b = [Resume p, Millis, Worker p] \<or>
         b = [Resume p, Millis, Worker p, Millis] \<and> waitRelativeToWorkerExit c"
    and wr: "waitRelativeToWorkerExit c' = waitRelativeToWorkerExit c"
    by blast
  have 1: "call_resume clk wrk p w = Inr (w\<lparr>objs := (objs w)(p \<mapsto> c'), trace := tr'\<rparr>)"
    using assms r by (simp add: call_resume_def)
  have 2: "resume_block w p b" using b(2) assms by (auto simp: resume_block_def)
  have 3: "\<forall>q. map_option waitRelativeToWorkerExit (objs (w\<lparr>objs := (objs w)(p \<mapsto> c'), trace := tr'\<rparr>) q)
      = map_option waitRelativeToWorkerExit (objs w q)"
    using assms wr by simp
  show ?thesis using 1 2 3 b(1) by simp
qed

lemma resume_block_cong:
  assumes "\<forall>q. map_option waitRelativeToWorkerExit (objs w' q) = map_option waitRelativeToWorkerExit (objs w q)"
  shows "resume_block w' p b = resume_block w p b"
proof -
  have "map_option waitRelativeToWorkerExit (objs w' p) = map_option waitRelativeToWorkerExit (objs w p)"
    using assms by blast
  then have "(case objs w' p of Some c \<Rightarrow> waitRelativeToWorkerExit c | None \<Rightarrow> False) =
             (case objs w p of Some c \<Rightarrow> waitRelativeToWorkerExit c | None \<Rightarrow> False)"
    by (cases "objs w' p"; cases "objs w p") simp_all
  then show ?thesis by (simp add: resume_block_def)
qed

lemma resume_all_shape:
  assumes "map (entry psz mem) [i..<i + length ps] = map Some ps"
    and "\<forall>p\<in>set ps. objs w p \<noteq> None"
  shows "\<exists>w' bs. resume_all clk wrk psz mem i (length ps) w = Inr w' \<and>
     trace w' = trace w @ concat bs \<and> list_all2 (resume_block w) ps bs"
  using assms
proof (induction ps arbitrary: i w)
  case Nil
  have "resume_all clk wrk psz mem i (length ([]::ptr list)) w = Inr w \<and>
     trace w = trace w @ concat [] \<and> list_all2 (resume_block w) [] []" by simp
  then show ?case by blast
next
  case (Cons p ps)
  have e: "entry psz mem i = Some p" and rest: "map (entry psz mem) [Suc i..<Suc i + length ps] = map Some ps"
    using Cons.prems(1) by (simp_all add: upt_rec)
  obtain c where c: "objs w p = Some c" using Cons.prems(2) by auto
  from call_resume_shape [OF c, of clk wrk] obtain w1 b where
    1: "call_resume clk wrk p w = Inr w1" "trace w1 = trace w @ b" "resume_block w p b"
    and same: "\<forall>q. map_option waitRelativeToWorkerExit (objs w1 q) = map_option waitRelativeToWorkerExit (objs w q)"
    by blast
  have live: "\<forall>q\<in>set ps. objs w1 q \<noteq> None"
  proof
    fix q assume "q \<in> set ps"
    then have "objs w q \<noteq> None" using Cons.prems(2) by simp
    moreover have "map_option waitRelativeToWorkerExit (objs w1 q) = map_option waitRelativeToWorkerExit (objs w q)"
      using same by blast
    ultimately show "objs w1 q \<noteq> None" by (cases "objs w1 q") auto
  qed
  from Cons.IH [OF rest live] obtain w' bs where
    2: "resume_all clk wrk psz mem (Suc i) (length ps) w1 = Inr w'"
       "trace w' = trace w1 @ concat bs" "list_all2 (resume_block w1) ps bs"
    by blast
  have 3: "list_all2 (resume_block w) ps bs"
    using 2(3) resume_block_cong [OF same] by (simp add: list_all2_conv_all_nth)
  have "resume_all clk wrk psz mem i (length (p # ps)) w = Inr w'"
    using e 1(1) 2(1) by simp
  moreover have "trace w' = trace w @ concat (b # bs)" using 1(2) 2(2) by simp
  moreover have "list_all2 (resume_block w) (p # ps) (b # bs)" using 1(3) 3 by simp
  ultimately show ?case by blast
qed

lemma blocks_resumes:
  "list_all2 (resume_block w) ps bs \<Longrightarrow>
     filter is_Resume (concat bs) = map Resume ps \<and> length ps \<le> count_list (concat bs) Millis"
proof (induction rule: list_all2_induct)
  case Nil
  show ?case by simp
next
  case (Cons p ps b bs)
  have "filter is_Resume b = [Resume p] \<and> 1 \<le> count_list b Millis"
    using Cons.hyps(1) by (auto simp: resume_block_def is_Resume_def)
  then show ?case using Cons.IH by simp
qed

text \<open>
  The second pass. While it runs, every entry below the current index is as it was, so
  on a scheduler whose entries are addresses of co-routines
  \<^verbatim>\<open>coRoutines[i]->isSuspended()\<close> never dereferences anything else.
\<close>

lemma call_resume_same:
  assumes "call_resume clk wrk p w = Inr w1"
  shows "\<forall>q. map_option waitRelativeToWorkerExit (objs w1 q) = map_option waitRelativeToWorkerExit (objs w q)"
proof (cases "objs w p")
  case None
  then show ?thesis using assms by (simp add: call_resume_def)
next
  case (Some c)
  from call_resume_shape [OF Some, of clk wrk] show ?thesis using assms by auto
qed

lemma resume_all_same:
  "resume_all clk wrk psz mem i k w = Inr w' \<Longrightarrow>
     \<forall>q. map_option waitRelativeToWorkerExit (objs w' q) = map_option waitRelativeToWorkerExit (objs w q)"
proof (induction k arbitrary: i w)
  case 0
  then show ?case by simp
next
  case (Suc k)
  from Suc.prems obtain p w1 where
    1: "call_resume clk wrk p w = Inr w1" and 2: "resume_all clk wrk psz mem (Suc i) k w1 = Inr w'"
    by (auto split: option.splits sum.splits)
  show ?case using Suc.IH [OF 2] call_resume_same [OF 1] by simp
qed

lemma same_live:
  assumes "\<forall>q. map_option waitRelativeToWorkerExit (objs w' q) = map_option waitRelativeToWorkerExit (objs w q)"
    and "objs w p \<noteq> None"
  shows "objs w' p \<noteq> None"
proof -
  have "map_option waitRelativeToWorkerExit (objs w' p) = map_option waitRelativeToWorkerExit (objs w p)"
    using assms(1) by blast
  then show ?thesis using assms(2) by (cases "objs w' p") auto
qed

lemma entry_in_block: "entry psz mem k = Some p \<Longrightarrow> k * psz + psz \<le> length mem"
  by (simp add: entry_def split: if_splits)

lemma entry_take:
  assumes "k * psz + psz \<le> m"
  shows "entry psz (take m mem) k = entry psz mem k"
  using assms by (simp add: entry_def take_drop min_def)

lemma find_from_bounds:
  assumes "0 < i" "i \<le> n" "entry psz mem i = Some p"
  shows "i \<le> find_from psz mem p n d \<and> find_from psz mem p n d \<le> n"
  using assms
proof (induction n)
  case 0
  then show ?case by simp
next
  case (Suc n)
  show ?case
  proof (cases "entry psz mem (Suc n) = Some p")
    case True
    then show ?thesis using Suc.prems by simp
  next
    case False
    then have "i \<noteq> Suc n" using Suc.prems(3) by auto
    then have "i \<le> n" using Suc.prems(2) by simp
    from Suc.IH [OF Suc.prems(1) this Suc.prems(3)] show ?thesis using False by simp
  qed
qed

lemma removeCoRoutine_keeps_lower:
  assumes "0 < i" "i < noEntries s" "entry psz (coRoutines s) i = Some p"
  shows "noEntries (removeCoRoutine psz p s) = noEntries s - 1"
    and "\<forall>k < i. entry psz (coRoutines s) k \<noteq> None \<longrightarrow>
           entry psz (coRoutines (removeCoRoutine psz p s)) k = entry psz (coRoutines s) k"
proof -
  let ?f = "find_from psz (coRoutines s) p (noEntries s - 1) (noEntries s)"
  have "i \<le> noEntries s - 1" using assms(2) by simp
  from find_from_bounds [OF assms(1) this assms(3)]
  have f: "i \<le> ?f" "?f \<le> noEntries s - 1" by blast+
  then have ne: "?f \<noteq> noEntries s" using assms(2) by simp
  have r: "removeCoRoutine psz p s =
     s\<lparr>coRoutines := memcpy (coRoutines s) (?f * psz) (coRoutines s) ((?f + 1) * psz) (noEntries s - (?f + 1)),
       noEntries := noEntries s - 1\<rparr>"
    using ne assms(2) by (simp add: removeCoRoutine_def Let_def)
  show "noEntries (removeCoRoutine psz p s) = noEntries s - 1"
    unfolding r by simp
  show "\<forall>k < i. entry psz (coRoutines s) k \<noteq> None \<longrightarrow>
           entry psz (coRoutines (removeCoRoutine psz p s)) k = entry psz (coRoutines s) k"
  proof (intro allI impI)
    fix k assume k: "k < i" and some: "entry psz (coRoutines s) k \<noteq> None"
    then obtain q where "entry psz (coRoutines s) k = Some q" by auto
    then have inb: "k * psz + psz \<le> length (coRoutines s)" by (rule entry_in_block)
    have "Suc k \<le> ?f" using k f(1) by simp
    then have "Suc k * psz \<le> ?f * psz" by (rule mult_le_mono1)
    then have le: "k * psz + psz \<le> ?f * psz" by simp
    have "k * psz + psz \<le> length (take (?f * psz) (coRoutines s))" using le inb by simp
    then have "entry psz (take (?f * psz) (coRoutines s) @
          (take (noEntries s - (?f + 1)) (drop ((?f + 1) * psz) (coRoutines s)) @
           drop (?f * psz + (noEntries s - (?f + 1))) (coRoutines s))) k
        = entry psz (take (?f * psz) (coRoutines s)) k"
      by (rule entry_append)
    also have "\<dots> = entry psz (coRoutines s) k" using le by (rule entry_take)
    finally show "entry psz (coRoutines (removeCoRoutine psz p s)) k = entry psz (coRoutines s) k"
      unfolding r by (simp add: memcpy_def)
  qed
qed

lemma remove_suspended_returns:
  assumes "\<forall>k \<le> j. \<exists>p. entry psz (coRoutines s) k = Some p \<and> objs w p \<noteq> None"
    and "j < noEntries s"
  shows "\<exists>s'. remove_suspended psz w j s = Inr s'"
  using assms
proof (induction j arbitrary: s)
  case 0
  show ?case by simp
next
  case (Suc j)
  from Suc.prems(1) obtain p where p: "entry psz (coRoutines s) (Suc j) = Some p" "objs w p \<noteq> None"
    by blast
  then obtain c where c: "objs w p = Some c" by auto
  let ?s1 = "if isSuspended c then removeCoRoutine psz p s else s"
  have step: "remove_suspended psz w (Suc j) s = remove_suspended psz w j ?s1"
    using p(1) c by simp
  have keep: "\<forall>k \<le> j. \<exists>q. entry psz (coRoutines ?s1) k = Some q \<and> objs w q \<noteq> None"
  proof (intro allI impI)
    fix k assume k: "k \<le> j"
    then obtain q where q: "entry psz (coRoutines s) k = Some q" "objs w q \<noteq> None"
      using Suc.prems(1) by (meson le_SucI)
    have "entry psz (coRoutines (removeCoRoutine psz p s)) k = entry psz (coRoutines s) k"
      using removeCoRoutine_keeps_lower(2) [OF _ Suc.prems(2) p(1)] k q(1) by simp
    then show "\<exists>q. entry psz (coRoutines ?s1) k = Some q \<and> objs w q \<noteq> None"
      using q by auto
  qed
  have cnt: "j < noEntries ?s1"
    using removeCoRoutine_keeps_lower(1) [OF _ Suc.prems(2) p(1)] Suc.prems(2) by auto
  from Suc.IH [OF keep cnt] show ?case unfolding step .
qed

text \<open>
  Claim C5, as amended. When the registered pointers \<open>ps\<close> are addresses of co-routines,
  \<^verbatim>\<open>runOnce\<close>, called with either value of its flag, returns and has called
  \<^verbatim>\<open>resume()\<close> on each entry exactly once, in registration order; without the flag it
  leaves the scheduler as it is. \<^verbatim>\<open>runOnce\<close> does not read the clock: every call of
  \<^verbatim>\<open>resume()\<close> starts with its own read for the due-time check, so a sweep over \<open>K\<close>
  entries reads the clock at least \<open>K\<close> times; a second read after the work unit is made
  only by an object with \<^verbatim>\<open>waitRelativeToWorkerExit\<close>.
\<close>

theorem sweep_resumes_each_entry_once:
  assumes "entries psz s = map Some ps" and "\<forall>p\<in>set ps. objs w p \<noteq> None"
  shows "\<exists>s' w' bs. runOnce clk wrk psz removeCompletedCoRoutines (s, w) = Inr (s', w') \<and>
     (\<not> removeCompletedCoRoutines \<longrightarrow> s' = s) \<and>
     trace w' = trace w @ concat bs \<and> list_all2 (resume_block w) ps bs \<and>
     filter is_Resume (concat bs) = map Resume ps \<and>
     length ps \<le> count_list (concat bs) Millis"
proof -
  have "length (entries psz s) = length (map Some ps)"
    by (simp only: assms(1))
  then have n: "noEntries s = length ps"
    by (simp add: entries_def)
  have "map (entry psz (coRoutines s)) [0..<0 + length ps] = map Some ps"
    using assms(1) n by (simp add: entries_def)
  from resume_all_shape [OF this assms(2), of clk wrk] obtain w' bs where
    1: "resume_all clk wrk psz (coRoutines s) 0 (length ps) w = Inr w'"
       "trace w' = trace w @ concat bs" "list_all2 (resume_block w) ps bs"
    by blast
  note same = resume_all_same [OF 1(1)]
  have ent: "entry psz (coRoutines s) k = Some (ps ! k)" if "k < length ps" for k
  proof -
    have "entries psz s ! k = map Some ps ! k" by (simp only: assms(1))
    then show ?thesis using that n by (simp add: entries_def)
  qed
  have "\<exists>s'. runOnce clk wrk psz removeCompletedCoRoutines (s, w) = Inr (s', w') \<and>
     (\<not> removeCompletedCoRoutines \<longrightarrow> s' = s)"
  proof (cases "noEntries s \<noteq> 0 \<and> removeCompletedCoRoutines")
    case False
    then have "runOnce clk wrk psz removeCompletedCoRoutines (s, w) = Inr (s, w')"
      using 1(1) n by (auto simp: runOnce_def)
    then show ?thesis by blast
  next
    case True
    have live: "\<forall>k \<le> noEntries s - 1. \<exists>p. entry psz (coRoutines s) k = Some p \<and> objs w' p \<noteq> None"
    proof (intro allI impI)
      fix k assume "k \<le> noEntries s - 1"
      moreover have "0 < length ps" using True n by simp
      ultimately have k: "k < length ps" using n by arith
      then have "ps ! k \<in> set ps" by simp
      then have "objs w (ps ! k) \<noteq> None" using assms(2) by blast
      then have "objs w' (ps ! k) \<noteq> None" by (rule same_live [OF same])
      then show "\<exists>p. entry psz (coRoutines s) k = Some p \<and> objs w' p \<noteq> None"
        using ent [OF k] by blast
    qed
    have "noEntries s - 1 < noEntries s" using True by simp
    from remove_suspended_returns [OF live this] obtain s' where
      "remove_suspended psz w' (noEntries s - 1) s = Inr s'" by blast
    then have "runOnce clk wrk psz removeCompletedCoRoutines (s, w) = Inr (s', w')"
      using 1(1) n True by (simp add: runOnce_def)
    then show ?thesis using True by blast
  qed
  then show ?thesis using 1(2,3) blocks_resumes [OF 1(3)] by blast
qed

text \<open>Two sweeps over two registered co-routines, the second with
  \<^verbatim>\<open>waitRelativeToWorkerExit\<close>: one without the flag and work units returning 10, one
  with the flag and work units returning -1.\<close>

theorem sweep_resumes_each_entry_once_witness:
  "(\<exists>s' w' bs. runOnce (fake_clock [0, 100, 130]) (fixed_worker (10::16 word)) 2 False
        (apply_calls 2 [Add task_A, Add task_B] Scheduler,
         world_of [(task_A, CoRoutine False), (task_B, CoRoutine True :: 32 word coroutine)])
       = Inr (s', w') \<and>
     s' = apply_calls 2 [Add task_A, Add task_B] Scheduler \<and>
     trace w' =
       trace (world_of [(task_A, CoRoutine False), (task_B, CoRoutine True :: 32 word coroutine)])
         @ concat bs \<and>
     list_all2 (resume_block (world_of [(task_A, CoRoutine False), (task_B, CoRoutine True :: 32 word coroutine)]))
        [task_A, task_B] bs \<and>
     filter is_Resume (concat bs) = map Resume [task_A, task_B] \<and>
     length [task_A, task_B] \<le> count_list (concat bs) Millis) \<and>
   (\<exists>s' w' bs. runOnce (fake_clock [0, 100, 130]) (fixed_worker (- 1 :: 16 word)) 2 True
        (apply_calls 2 [Add task_A, Add task_B] Scheduler,
         world_of [(task_A, CoRoutine False), (task_B, CoRoutine True :: 32 word coroutine)])
       = Inr (s', w') \<and>
     trace w' =
       trace (world_of [(task_A, CoRoutine False), (task_B, CoRoutine True :: 32 word coroutine)])
         @ concat bs \<and>
     list_all2 (resume_block (world_of [(task_A, CoRoutine False), (task_B, CoRoutine True :: 32 word coroutine)]))
        [task_A, task_B] bs \<and>
     filter is_Resume (concat bs) = map Resume [task_A, task_B] \<and>
     length [task_A, task_B] \<le> count_list (concat bs) Millis)"
proof -
  let ?s = "apply_calls 2 [Add task_A, Add task_B] Scheduler"
  let ?w = "world_of [(task_A, CoRoutine False), (task_B, CoRoutine True :: 32 word coroutine)]"
  have h1: "entries 2 ?s = map Some [task_A, task_B]" by code_simp
  have h2: "\<forall>p\<in>set [task_A, task_B]. objs ?w p \<noteq> None"
    by (simp add: world_of_def task_A_def task_B_def)
  show ?thesis
    using sweep_resumes_each_entry_once [OF h1 h2, where clk = "fake_clock [0, 100, 130]"
        and wrk = "fixed_worker (10::16 word)" and removeCompletedCoRoutines = False]
      sweep_resumes_each_entry_once [OF h1 h2, where clk = "fake_clock [0, 100, 130]"
        and wrk = "fixed_worker (- 1 :: 16 word)" and removeCompletedCoRoutines = True]
    by blast
qed

text \<open>
  Claim C5 as stated fails: the sweep has no clock reading of its own. With two entries
  the clock is read twice, returning 0 and then 100 (the first work unit took 100 ms);
  the second co-routine, due at 50, runs in this sweep, which it would not at the
  reading 0 of the first.
\<close>

theorem sweep_rereads_clock_counterexample:
  "outcome 2 [task_A, task_B]
     (runOnce (fake_clock [0, 100]) (fixed_worker (10::16 word)) 2 False
        (apply_calls 2 [Add task_A, Add task_B] Scheduler,
         world_of [(task_A, CoRoutine False),
                   (task_B, \<lparr>suspended = False, waitRelativeToWorkerExit = False, nextRun = 50::32 word\<rparr>)]))
   = Inr ([Some task_A, Some task_B],
          [Some \<lparr>suspended = False, waitRelativeToWorkerExit = False, nextRun = 10\<rparr>,
           Some \<lparr>suspended = False, waitRelativeToWorkerExit = False, nextRun = 60\<rparr>],
          [Resume task_A, Millis, Worker task_A, Resume task_B, Millis, Worker task_B])"
  by code_simp

text \<open>
  Claim C2 fails on the code. Both work units return -1 in the sweep, so both
  co-routines are dormant at the end of the first pass; the second pass removes the
  second entry and never looks at the first, which stays registered.
\<close>

theorem prune_keeps_dormant_first_entry:
  "outcome 2 [task_A, task_B]
     (runOnce (fake_clock [0, 0]) (fixed_worker (- 1 :: 16 word)) 2 True
        (apply_calls 2 [Add task_A, Add task_B] Scheduler,
         world_of [(task_A, CoRoutine False), (task_B, CoRoutine False :: 32 word coroutine)]))
   = Inr ([Some task_A],
          [Some \<lparr>suspended = True, waitRelativeToWorkerExit = False, nextRun = 0\<rparr>,
           Some \<lparr>suspended = True, waitRelativeToWorkerExit = False, nextRun = 0\<rparr>],
          [Resume task_A, Millis, Worker task_A, Resume task_B, Millis, Worker task_B])"
  by code_simp

end
